theory Spec2Isabelle
  imports Main "HOL-Library.Word"
begin

section \<open>Buffers, strings and JavaScript errors\<close>

text \<open>
  A Node \<open>Buffer\<close> is a sequence of unsigned bytes, a JavaScript string a sequence of
  UTF-16 code units. The client converts between the two with one of the encodings
  \<open>utf8\<close> (its default) and \<open>ascii\<close>.
\<close>

type_synonym byte = "8 word"
type_synonym buffer = "byte list"
type_synonym js_string = "16 word list"

datatype js_error = RangeError | TypeError

datatype encoding = Utf8 | Ascii

text \<open>A string literal of the source, character by character.\<close>

definition js :: "string \<Rightarrow> js_string" where
  "js s = map of_char s"

subsection \<open>UTF-8, as Node writes it\<close>

definition isHighSurrogate :: "16 word \<Rightarrow> bool" where
  "isHighSurrogate u \<longleftrightarrow> 55296 \<le> uint u \<and> uint u \<le> 56319"

definition isLowSurrogate :: "16 word \<Rightarrow> bool" where
  "isLowSurrogate u \<longleftrightarrow> 56320 \<le> uint u \<and> uint u \<le> 57343"

definition codePoint :: "16 word \<Rightarrow> 16 word \<Rightarrow> int" where
  "codePoint hi lo = 65536 + (uint hi - 55296) * 1024 + (uint lo - 56320)"

definition utf8_ints :: "int \<Rightarrow> int list" where
  "utf8_ints cp =
     (if cp < 128 then [cp]
      else if cp < 2048 then [192 + cp div 64, 128 + cp mod 64]
      else if cp < 65536
      then [224 + cp div 4096, 128 + cp div 64 mod 64, 128 + cp mod 64]
      else [240 + cp div 262144, 128 + cp div 4096 mod 64, 128 + cp div 64 mod 64,
            128 + cp mod 64])"

definition utf8_bytes :: "int \<Rightarrow> buffer" where
  "utf8_bytes cp = map word_of_int (utf8_ints cp)"

text \<open>
  The bytes of a string, one chunk per character: a surrogate pair is one code point of
  four bytes, and a surrogate without its partner is written as U+FFFD (\<open>EF BF BD\<close>).
\<close>

fun utf8_chunks :: "js_string \<Rightarrow> buffer list" where
  "utf8_chunks [] = []"
| "utf8_chunks [u] =
     [if isHighSurrogate u \<or> isLowSurrogate u then utf8_bytes 65533 else utf8_bytes (uint u)]"
| "utf8_chunks (u # v # us) =
     (if isHighSurrogate u \<and> isLowSurrogate v
      then utf8_bytes (codePoint u v) # utf8_chunks us
      else if isHighSurrogate u \<or> isLowSurrogate u
      then utf8_bytes 65533 # utf8_chunks (v # us)
      else utf8_bytes (uint u) # utf8_chunks (v # us))"

definition utf8_encode :: "js_string \<Rightarrow> buffer" where
  "utf8_encode s = concat (utf8_chunks s)"

text \<open>\<open>Buffer.byteLength(string)\<close>, whose encoding defaults to \<open>utf8\<close>.\<close>

definition byteLength :: "js_string \<Rightarrow> nat" where
  "byteLength s = length (utf8_encode s)"

subsection \<open>UTF-8, as Node reads it\<close>

text \<open>
  Decoding replaces every ill-formed sequence by U+FFFD: a byte that cannot start a
  sequence, and a started sequence up to the byte that cannot continue it (that byte is
  looked at again) or up to the end of the input. The second byte after \<open>E0\<close>, \<open>ED\<close>,
  \<open>F0\<close> and \<open>F4\<close> has a narrower range, which excludes overlong forms, surrogates and
  code points beyond U+10FFFF.
\<close>

definition lowerBound :: "int \<Rightarrow> int" where
  "lowerBound b = (if b = 224 then 160 else if b = 240 then 144 else 128)"

definition upperBound :: "int \<Rightarrow> int" where
  "upperBound b = (if b = 237 then 159 else if b = 244 then 143 else 191)"

definition continues :: "int \<Rightarrow> bool" where
  "continues c \<longleftrightarrow> 128 \<le> c \<and> c \<le> 191"

fun utf8_points :: "int list \<Rightarrow> int list" where
  "utf8_points [] = []"
| "utf8_points (b # bs) =
     (if b < 128 then b # utf8_points bs
      else if 194 \<le> b \<and> b \<le> 223
      then (case bs of
              [] \<Rightarrow> [65533]
            | c # cs \<Rightarrow>
                if continues c then ((b - 192) * 64 + (c - 128)) # utf8_points cs
                else 65533 # utf8_points bs)
      else if 224 \<le> b \<and> b \<le> 239
      then (case bs of
              [] \<Rightarrow> [65533]
            | c # cs \<Rightarrow>
                if lowerBound b \<le> c \<and> c \<le> upperBound b
                then (case cs of
                        [] \<Rightarrow> [65533]
                      | d # ds \<Rightarrow>
                          if continues d
                          then ((b - 224) * 4096 + (c - 128) * 64 + (d - 128)) # utf8_points ds
                          else 65533 # utf8_points cs)
                else 65533 # utf8_points bs)
      else if 240 \<le> b \<and> b \<le> 244
      then (case bs of
              [] \<Rightarrow> [65533]
            | c # cs \<Rightarrow>
                if lowerBound b \<le> c \<and> c \<le> upperBound b
                then (case cs of
                        [] \<Rightarrow> [65533]
                      | d # ds \<Rightarrow>
                          if continues d
                          then (case ds of
                                  [] \<Rightarrow> [65533]
                                | e # es \<Rightarrow>
                                    if continues e
                                    then ((b - 240) * 262144 + (c - 128) * 4096
                                          + (d - 128) * 64 + (e - 128)) # utf8_points es
                                    else 65533 # utf8_points ds)
                          else 65533 # utf8_points cs)
                else 65533 # utf8_points bs)
      else 65533 # utf8_points bs)"

text \<open>A code point as UTF-16: one unit, or a surrogate pair beyond U+FFFF.\<close>

definition utf16_units :: "int \<Rightarrow> js_string" where
  "utf16_units cp =
     (if cp < 65536 then [word_of_int cp]
      else [word_of_int (55296 + (cp - 65536) div 1024),
            word_of_int (56320 + (cp - 65536) mod 1024)])"

definition utf8_decode :: "buffer \<Rightarrow> js_string" where
  "utf8_decode bs = concat (map utf16_units (utf8_points (map uint bs)))"

subsection \<open>The encoding \<open>ascii\<close>\<close>

text \<open>
  Writing with \<open>ascii\<close> stores the low byte of every code unit; reading with \<open>ascii\<close>
  clears the highest bit of every byte.
\<close>

definition ascii_encode :: "js_string \<Rightarrow> buffer" where
  "ascii_encode s = map (\<lambda>u. word_of_int (uint u mod 256)) s"

definition ascii_decode :: "buffer \<Rightarrow> js_string" where
  "ascii_decode bs = map (\<lambda>b. word_of_int (uint b mod 128)) bs"

definition decodeBytes :: "encoding \<Rightarrow> buffer \<Rightarrow> js_string" where
  "decodeBytes enc bs = (case enc of Utf8 \<Rightarrow> utf8_decode bs | Ascii \<Rightarrow> ascii_decode bs)"

subsection \<open>Buffer operations\<close>

text \<open>\<open>Buffer.alloc(n)\<close>: \<open>n\<close> zero bytes.\<close>

definition alloc :: "nat \<Rightarrow> buffer" where
  "alloc n = replicate n 0"

text \<open>Overwriting the bytes of \<open>buf\<close> from offset \<open>off\<close> on; the callers check the range.\<close>

definition writeBytes :: "buffer \<Rightarrow> nat \<Rightarrow> buffer \<Rightarrow> buffer" where
  "writeBytes buf off bs = take off buf @ bs @ drop (off + length bs) buf"

definition int32_bytes :: "int \<Rightarrow> buffer" where
  "int32_bytes v =
     [word_of_int v, word_of_int (v div 256), word_of_int (v div 65536),
      word_of_int (v div 16777216)]"

text \<open>
  \<open>buf.writeInt32LE(value, offset)\<close> throws a RangeError when the value is not a signed
  32-bit integer or the four bytes do not fit.
\<close>

definition writeInt32LE :: "buffer \<Rightarrow> int \<Rightarrow> nat \<Rightarrow> js_error + buffer" where
  "writeInt32LE buf v off =
     (if - 2147483648 \<le> v \<and> v \<le> 2147483647 \<and> off + 4 \<le> length buf
      then Inr (writeBytes buf off (int32_bytes v))
      else Inl RangeError)"

definition writeInt16LE :: "buffer \<Rightarrow> int \<Rightarrow> nat \<Rightarrow> js_error + buffer" where
  "writeInt16LE buf v off =
     (if - 32768 \<le> v \<and> v \<le> 32767 \<and> off + 2 \<le> length buf
      then Inr (writeBytes buf off [word_of_int v, word_of_int (v div 256)])
      else Inl RangeError)"

text \<open>
  \<open>buf.write(string, offset, length, encoding)\<close> writes at most \<open>length\<close> bytes and no
  more than fit into the buffer; with \<open>utf8\<close> it writes whole characters only.
\<close>

fun fitting :: "nat \<Rightarrow> buffer list \<Rightarrow> buffer list" where
  "fitting n [] = []"
| "fitting n (c # cs) = (if length c \<le> n then c # fitting (n - length c) cs else [])"

definition encodeInto :: "encoding \<Rightarrow> js_string \<Rightarrow> nat \<Rightarrow> buffer" where
  "encodeInto enc s n =
     (case enc of
        Utf8 \<Rightarrow> concat (fitting n (utf8_chunks s))
      | Ascii \<Rightarrow> take n (ascii_encode s))"

definition bufWrite :: "buffer \<Rightarrow> js_string \<Rightarrow> nat \<Rightarrow> nat \<Rightarrow> encoding \<Rightarrow> buffer" where
  "bufWrite buf s off len enc =
     writeBytes buf off (encodeInto enc s (min len (length buf - off)))"

text \<open>
  \<open>buf.readInt32LE(offset)\<close>: the first three bytes are added unsigned, the last one is
  shifted as a signed 32-bit value; a RangeError when four bytes are not there.
\<close>

definition readInt32LE :: "buffer \<Rightarrow> nat \<Rightarrow> js_error + int" where
  "readInt32LE buf off =
     (if off + 4 \<le> length buf
      then Inr (uint (buf ! off) + uint (buf ! (off + 1)) * 256
                + uint (buf ! (off + 2)) * 65536
                + sint (buf ! (off + 3)) * 16777216)
      else Inl RangeError)"

text \<open>
  \<open>buf.toString(encoding, start, end)\<close>: the bytes from \<open>start\<close> up to \<open>end\<close>, the
  empty string when \<open>end\<close> is not beyond \<open>start\<close>.
\<close>

definition toString :: "buffer \<Rightarrow> encoding \<Rightarrow> nat \<Rightarrow> int \<Rightarrow> js_string" where
  "toString buf enc start end = decodeBytes enc (take (nat end - start) (drop start buf))"

text \<open>
  \<open>buf.slice(start, end)\<close> and \<open>buf.slice(start)\<close>: a negative index counts from the end
  of the buffer, and every index is clamped to the buffer.
\<close>

definition sliceIndex :: "nat \<Rightarrow> int \<Rightarrow> nat" where
  "sliceIndex len i = (if i < 0 then nat (int len + i) else min (nat i) len)"

definition slice :: "buffer \<Rightarrow> int \<Rightarrow> int \<Rightarrow> buffer" where
  "slice buf start end =
     take (sliceIndex (length buf) end - sliceIndex (length buf) start)
       (drop (sliceIndex (length buf) start) buf)"

definition sliceFrom :: "buffer \<Rightarrow> int \<Rightarrow> buffer" where
  "sliceFrom buf start = drop (sliceIndex (length buf) start) buf"

section \<open>Packet codec\<close>

record decoded_packet =
  pkt_size :: int
  pkt_id :: int
  pkt_type :: int
  pkt_body :: js_string

definition COMMAND :: int where "COMMAND = 2"
definition AUTH :: int where "AUTH = 3"
definition RESPONSE_VALUE :: int where "RESPONSE_VALUE = 0"
definition CHAT_VALUE :: int where "CHAT_VALUE = 1"
definition RESPONSE_AUTH :: int where "RESPONSE_AUTH = 2"
definition MID :: int where "MID = 1"
definition END :: int where "END = 2"

text \<open>
  \<open>_encodePacket\<close> and \<open>_decodePacket\<close>; the encoding is the client's \<open>_encoding\<close>. The
  size of the packet is computed from the UTF-8 length of the body whatever the encoding.
\<close>

definition encodePacket :: "encoding \<Rightarrow> int \<Rightarrow> int \<Rightarrow> js_string \<Rightarrow> js_error + buffer" where
  "encodePacket enc type ident body =
     (let size = byteLength body + 14 in
      case writeInt32LE (alloc size) (int size - 4) 0 of
        Inl e \<Rightarrow> Inl e
      | Inr b1 \<Rightarrow>
          (case writeInt32LE b1 ident 4 of
             Inl e \<Rightarrow> Inl e
           | Inr b2 \<Rightarrow>
               (case writeInt32LE b2 type 8 of
                  Inl e \<Rightarrow> Inl e
                | Inr b3 \<Rightarrow>
                    writeInt16LE (bufWrite b3 body 12 (size - 2) enc) 0 (size - 2))))"

definition decodePacket :: "encoding \<Rightarrow> buffer \<Rightarrow> js_error + decoded_packet" where
  "decodePacket enc packet =
     (case readInt32LE packet 0 of
        Inl e \<Rightarrow> Inl e
      | Inr s \<Rightarrow>
          (case readInt32LE packet 4 of
             Inl e \<Rightarrow> Inl e
           | Inr i \<Rightarrow>
               (case readInt32LE packet 8 of
                  Inl e \<Rightarrow> Inl e
                | Inr t \<Rightarrow>
                    Inr \<lparr>pkt_size = s, pkt_id = i, pkt_type = t,
                         pkt_body = toString packet enc 12 (int (length packet) - 2)\<rparr>)))"

section \<open>Client state\<close>

datatype rcon_error =
  NotConnected | UnableToWrite | PacketTooLong | AuthenticationFailed | Thrown js_error

text \<open>
  The value handed to a completion. The dispatcher only ever passes the joined string; a
  string has no property \<open>id\<close>, so reading it gives \<open>undefined\<close>.
\<close>

datatype js_value = JsString js_string | JsPacket decoded_packet

fun propId :: "js_value \<Rightarrow> int option" where
  "propId (JsString s) = None"
| "propId (JsPacket p) = Some (pkt_id p)"

datatype event = Connect | Error rcon_error | Authed | Response js_value | Chat js_string

text \<open>
  The three closures that \<open>_write\<close> queues. Each request closure captures the \<open>onError\<close>
  listener of its own call of \<open>_write\<close>, named here by a number.
\<close>

datatype callback = Noop | AuthCallback nat | ResponseCallback nat

record rcon =
  maximumPacketSize :: int
  encoding :: encoding
  password :: js_string
  incomingData :: buffer
  incomingResponse :: "decoded_packet list"
  responseCallbackQueue :: "callback list"
  connected :: bool
  autoReconnect :: bool
  writable :: bool
  socketWrites :: "buffer list"
  errorListeners :: "nat list"
  nextListener :: nat
  emitted :: "event list"
  reconnectTimers :: nat
  connectCalls :: nat

text \<open>
  Besides the fields of the class, the state holds what the client does to its socket
  (\<open>writable\<close>, the packets written, the one-shot error listeners of \<open>_write\<close>), to its
  timer, and to its observers: \<open>emitted\<close> is the sequence of events handed to the
  application, which listens to all of them, \<open>error\<close> included, as the bot does. Logging is
  left out.

  The constructor: \<open>options.maximumPacketSize || 4096\<close>, \<open>options.encoding || 'utf8'\<close> and
  \<open>password || ''\<close>; everything else starts empty.
\<close>

definition Rcon :: "js_string \<Rightarrow> int option \<Rightarrow> encoding option \<Rightarrow> rcon" where
  "Rcon pw maxSize enc =
     \<lparr>maximumPacketSize = (case maxSize of None \<Rightarrow> 4096 | Some n \<Rightarrow> if n = 0 then 4096 else n),
      encoding = (case enc of None \<Rightarrow> Utf8 | Some e \<Rightarrow> e),
      password = pw, incomingData = [], incomingResponse = [], responseCallbackQueue = [],
      connected = False, autoReconnect = False, writable = False, socketWrites = [],
      errorListeners = [], nextListener = 0, emitted = [], reconnectTimers = 0,
      connectCalls = 0\<rparr>"

definition emit :: "rcon \<Rightarrow> event \<Rightarrow> rcon" where
  "emit st e = st\<lparr>emitted := emitted st @ [e]\<rparr>"

definition removeListener :: "rcon \<Rightarrow> nat \<Rightarrow> rcon" where
  "removeListener st l = st\<lparr>errorListeners := removeAll l (errorListeners st)\<rparr>"

text \<open>A call either returns or throws; either way the client is left in some state.\<close>

datatype outcome = Return rcon | Throw js_error rcon

section \<open>Frame reassembly\<close>

definition brokenBody :: js_string where
  "brokenBody = [0, 0, 0, 1, 0, 0, 0]"

text \<open>
  The probe of \<open>_decodeData\<close>: with a declared size of 10 and at least 17 bytes buffered,
  the first 21 bytes are decoded and their body compared with the pattern.
\<close>

definition probe :: "encoding \<Rightarrow> buffer \<Rightarrow> int \<Rightarrow> js_error + bool" where
  "probe enc incoming sz =
     (if sz = 10 \<and> 17 \<le> length incoming
      then (case decodePacket enc (slice incoming 0 21) of
              Inl e \<Rightarrow> Inl e
            | Inr p \<Rightarrow> Inr (pkt_body p = brokenBody))
      else Inr False)"

datatype extraction = Packets "buffer list" buffer | Failed js_error buffer

text \<open>
  The \<open>while\<close> loop of \<open>_decodeData\<close> on the buffered bytes and the packets found so
  far. The loop need not end (a declared size of \<open>-4\<close> extracts the empty packet for
  ever), so its result is optional.
\<close>

partial_function (option) decodeLoop ::
  "encoding \<Rightarrow> buffer \<Rightarrow> buffer list \<Rightarrow> extraction option" where
  "decodeLoop enc incoming packets =
     (if 4 \<le> length incoming
      then (case readInt32LE incoming 0 of
              Inl e \<Rightarrow> Some (Failed e incoming)
            | Inr sz \<Rightarrow>
                (case probe enc incoming sz of
                   Inl e \<Rightarrow> Some (Failed e incoming)
                 | Inr broken \<Rightarrow>
                     if broken then decodeLoop enc (sliceFrom incoming 21) packets
                     else if int (length incoming) < sz + 4
                     then Some (Packets packets incoming)
                     else decodeLoop enc (sliceFrom incoming (sz + 4))
                            (packets @ [slice incoming 0 (sz + 4)])))
      else Some (Packets packets incoming))"

declare decodeLoop.simps [code]

datatype decoding = Decoded "buffer list" rcon | DecodeThrow js_error rcon

definition decodeData :: "rcon \<Rightarrow> buffer \<Rightarrow> decoding option" where
  "decodeData st data =
     (case decodeLoop (encoding st) (incomingData st @ data) [] of
        None \<Rightarrow> None
      | Some (Packets packets rest) \<Rightarrow> Some (Decoded packets (st\<lparr>incomingData := rest\<rparr>))
      | Some (Failed e rest) \<Rightarrow> Some (DecodeThrow e (st\<lparr>incomingData := rest\<rparr>)))"

section \<open>Dispatch of decoded packets\<close>

text \<open>\<open>Array.prototype.join()\<close> without an argument separates the elements by a comma.\<close>

fun join :: "js_string list \<Rightarrow> js_string" where
  "join [] = []"
| "join [s] = s"
| "join (s # t # ss) = s @ js '','' @ join (t # ss)"

definition invoke :: "callback \<Rightarrow> js_value \<Rightarrow> rcon \<Rightarrow> rcon" where
  "invoke cb arg st =
     (case cb of
        Noop \<Rightarrow> st
      | AuthCallback l \<Rightarrow>
          (if propId arg = Some (- 1)
           then emit (removeListener st l) (Error AuthenticationFailed)
           else emit ((removeListener st l)\<lparr>autoReconnect := True\<rparr>) Authed)
      | ResponseCallback l \<Rightarrow> emit (removeListener st l) (Response arg))"

text \<open>The body of the \<open>for\<close> loop of \<open>_socketOnData\<close>, after the packet is decoded.\<close>

definition handlePacket :: "rcon \<Rightarrow> decoded_packet \<Rightarrow> outcome" where
  "handlePacket st p =
     (if pkt_type p = RESPONSE_VALUE \<or> pkt_type p = RESPONSE_AUTH
      then (if pkt_id p = MID
            then Return (st\<lparr>incomingResponse := incomingResponse st @ [p]\<rparr>)
            else if pkt_id p = END
            then (case responseCallbackQueue st of
                    [] \<Rightarrow> Throw TypeError st
                  | cb # rest \<Rightarrow>
                      Return ((invoke cb (JsString (join (map pkt_body (incomingResponse st))))
                                (st\<lparr>responseCallbackQueue := rest\<rparr>))
                              \<lparr>incomingResponse := []\<rparr>))
            else Return st)
      else if pkt_type p = CHAT_VALUE
      then Return (emit st (Chat (pkt_body p)))
      else Return st)"

fun processPackets :: "rcon \<Rightarrow> buffer list \<Rightarrow> outcome" where
  "processPackets st [] = Return st"
| "processPackets st (packet # packets) =
     (case decodePacket (encoding st) packet of
        Inl e \<Rightarrow> Throw e st
      | Inr p \<Rightarrow>
          (case handlePacket st p of
             Throw e st' \<Rightarrow> Throw e st'
           | Return st' \<Rightarrow> processPackets st' packets))"

text \<open>
  \<open>_socketOnData\<close>. Its first statement formats the chunk with \<open>_bufToHexString\<close>, whose
  \<open>match\<close> is \<open>null\<close> on an empty buffer, a TypeError.
\<close>

definition socketOnData :: "rcon \<Rightarrow> buffer \<Rightarrow> outcome option" where
  "socketOnData st data =
     (if data = [] then Some (Throw TypeError st)
      else (case decodeData st data of
              None \<Rightarrow> None
            | Some (DecodeThrow e st') \<Rightarrow> Some (Throw e st')
            | Some (Decoded packets st') \<Rightarrow> Some (processPackets st' packets)))"

section \<open>Writing requests\<close>

text \<open>\<open>_write\<close>, the request writer behind \<open>execute\<close> and the handshake.\<close>

definition rcon_write :: "rcon \<Rightarrow> int \<Rightarrow> js_string \<Rightarrow> outcome" where
  "rcon_write st type body =
     (if \<not> connected st then Return (emit st (Error NotConnected))
      else if \<not> writable st then Return (emit st (Error UnableToWrite))
      else (case encodePacket (encoding st) type (if type \<noteq> AUTH then MID else END) body of
              Inl e \<Rightarrow> Throw e st
            | Inr encodedPacket \<Rightarrow>
                (case encodePacket (encoding st) type END [] of
                   Inl e \<Rightarrow> Throw e st
                 | Inr encodedEmptyPacket \<Rightarrow>
                     if maximumPacketSize st < int (length encodedPacket)
                     then Return (emit st (Error PacketTooLong))
                     else
                       (let l = nextListener st;
                            st1 = (if type = AUTH
                                   then st\<lparr>responseCallbackQueue :=
                                             responseCallbackQueue st @ [Noop, AuthCallback l]\<rparr>
                                   else st\<lparr>responseCallbackQueue :=
                                             responseCallbackQueue st @ [ResponseCallback l]\<rparr>);
                            st2 = st1\<lparr>errorListeners := errorListeners st1 @ [l],
                                      nextListener := l + 1\<rparr>;
                            st3 = st2\<lparr>socketWrites := socketWrites st2 @ [encodedPacket]\<rparr>
                        in Return (if type \<noteq> AUTH
                                   then st3\<lparr>socketWrites := socketWrites st3 @ [encodedEmptyPacket]\<rparr>
                                   else st3)))))"

definition execute :: "rcon \<Rightarrow> js_string \<Rightarrow> outcome" where
  "execute st command = rcon_write st COMMAND command"

section \<open>Connection life cycle\<close>

text \<open>
  \<open>connect\<close> registers its two one-shot listeners and asks the socket to connect; of the
  client's fields it touches none. \<open>onConnect\<close> is its listener for the socket's
  \<open>connect\<close> event.
\<close>

definition connect :: "rcon \<Rightarrow> rcon" where
  "connect st = st\<lparr>connectCalls := connectCalls st + 1\<rparr>"

definition onConnect :: "rcon \<Rightarrow> rcon" where
  "onConnect st =
     (let st1 = (emit st Connect)\<lparr>connected := True\<rparr> in
      case rcon_write st1 AUTH (password st1) of
        Return st2 \<Rightarrow> st2
      | Throw e st2 \<Rightarrow> emit st2 (Error (Thrown e)))"

text \<open>\<open>_socketOnClose\<close>; the timer it sets calls \<open>connect\<close> when it fires.\<close>

definition socketOnClose :: "rcon \<Rightarrow> bool \<Rightarrow> rcon" where
  "socketOnClose st hadError =
     (let st1 = st\<lparr>connected := False\<rparr> in
      if autoReconnect st1 then st1\<lparr>reconnectTimers := reconnectTimers st1 + 1\<rparr> else st1)"

definition timerFires :: "rcon \<Rightarrow> rcon" where
  "timerFires st = connect (st\<lparr>reconnectTimers := reconnectTimers st - 1\<rparr>)"

text \<open>The socket's side of the two events: it is writable once connected, not after it closed.\<close>

definition socketConnected :: "rcon \<Rightarrow> rcon" where
  "socketConnected st = onConnect (st\<lparr>writable := True\<rparr>)"

definition socketClosed :: "rcon \<Rightarrow> bool \<Rightarrow> rcon" where
  "socketClosed st hadError = socketOnClose (st\<lparr>writable := False\<rparr>) hadError"

text \<open>
  The client is driven by the events of its socket and timer and by the calls of its user.
  \<open>run\<close> delivers a sequence of them, one after the other, and stops at the first
  exception, which nothing in the client catches.
\<close>

datatype input =
  SocketConnect | SocketData buffer | SocketClose bool | TimerFires | Execute js_string

fun react :: "rcon \<Rightarrow> input \<Rightarrow> outcome option" where
  "react st SocketConnect = Some (Return (socketConnected st))"
| "react st (SocketData chunk) = socketOnData st chunk"
| "react st (SocketClose hadError) = Some (Return (socketClosed st hadError))"
| "react st TimerFires =
     Some (Return (if 0 < reconnectTimers st then timerFires st else st))"
| "react st (Execute command) = Some (execute st command)"

fun run :: "rcon \<Rightarrow> input list \<Rightarrow> outcome option" where
  "run st [] = Some (Return st)"
| "run st (i # inputs) =
     (case react st i of
        Some (Return st') \<Rightarrow> run st' inputs
      | other \<Rightarrow> other)"

text \<open>Feeding the reassembler a sequence of chunks, collecting the packets of every call.\<close>

fun feedAll :: "rcon \<Rightarrow> buffer list \<Rightarrow> decoding option" where
  "feedAll st [] = Some (Decoded [] st)"
| "feedAll st (chunk # chunks) =
     (case decodeData st chunk of
        Some (Decoded packets st') \<Rightarrow>
          (case feedAll st' chunks of
             Some (Decoded later st'') \<Rightarrow> Some (Decoded (packets @ later) st'')
           | other \<Rightarrow> other)
      | other \<Rightarrow> other)"

section \<open>Auxiliary notions for the statements\<close>

text \<open>
  Strings that survive the UTF-8 encoding: every surrogate is part of a pair, a high one
  followed by a low one. \<open>scalar\<close> is the range of the code points such strings have.
\<close>

definition scalar :: "int \<Rightarrow> bool" where
  "scalar cp \<longleftrightarrow> 0 \<le> cp \<and> cp < 1114112 \<and> \<not> (55296 \<le> cp \<and> cp \<le> 57343)"

fun wellFormed :: "js_string \<Rightarrow> bool" where
  "wellFormed [] = True"
| "wellFormed [u] = (\<not> isHighSurrogate u \<and> \<not> isLowSurrogate u)"
| "wellFormed (u # v # us) =
     (if isHighSurrogate u then isLowSurrogate v \<and> wellFormed us
      else \<not> isLowSurrogate u \<and> wellFormed (v # us))"

text \<open>
  The byte layout of one packet around the bytes of its body; the bytes that
  \<open>buf.write\<close> leaves in the packet for a body (under \<open>ascii\<close> one byte a code unit,
  the rest of the \<open>Buffer.byteLength\<close> bytes reserved for it left zero); the range of
  \<open>writeInt32LE\<close>; and the bodies that each encoding reads back as they were written.
\<close>

definition frameBytes :: "int \<Rightarrow> int \<Rightarrow> buffer \<Rightarrow> buffer" where
  "frameBytes type ident payload =
     int32_bytes (int (length payload) + 10) @ int32_bytes ident @ int32_bytes type
       @ payload @ [0, 0]"

definition bodyBytes :: "encoding \<Rightarrow> js_string \<Rightarrow> buffer" where
  "bodyBytes enc body =
     (case enc of
        Utf8 \<Rightarrow> utf8_encode body
      | Ascii \<Rightarrow> ascii_encode body @ replicate (byteLength body - length body) 0)"

definition isInt32 :: "int \<Rightarrow> bool" where
  "isInt32 v \<longleftrightarrow> - 2147483648 \<le> v \<and> v \<le> 2147483647"

definition roundTrips :: "encoding \<Rightarrow> js_string \<Rightarrow> bool" where
  "roundTrips enc body =
     (case enc of
        Utf8 \<Rightarrow> wellFormed body
      | Ascii \<Rightarrow> list_all (\<lambda>u. uint u < 128) body)"

text \<open>
  The result of the reassembly loop with further packets in front of those it found.
\<close>

fun prepend :: "buffer list \<Rightarrow> extraction \<Rightarrow> extraction" where
  "prepend pre (Packets packets rest) = Packets (pre @ packets) rest"
| "prepend pre (Failed e rest) = Failed e rest"

text \<open>
  Two states of a client created with the password \<open>pw\<close>, each reached by the inputs given
  with the statements that use them: one whose handshake was answered with the id \<open>-1\<close>,
  and one that was authenticated, sent a command and holds a fragment of its response and
  three bytes of the next packet.
\<close>

definition rejectedClient :: rcon where
  "rejectedClient =
     \<lparr>maximumPacketSize = 4096, encoding = Utf8, password = js ''pw'', incomingData = [],
      incomingResponse = [], responseCallbackQueue = [AuthCallback 0], connected = True,
      autoReconnect = False, writable = True,
      socketWrites = [[12, 0, 0, 0, 2, 0, 0, 0, 3, 0, 0, 0, 112, 119, 0, 0]],
      errorListeners = [0], nextListener = 1, emitted = [Connect],
      reconnectTimers = 0, connectCalls = 0\<rparr>"


section \<open>Text encodings\<close>

lemma points1: "0 \<le> cp \<Longrightarrow> cp < 128 \<Longrightarrow> utf8_points (cp # rest) = cp # utf8_points rest"
  by simp

lemma points2:
  assumes "2 \<le> q" "q \<le> 31" "0 \<le> r" "r < 64"
  shows "utf8_points ((192 + q) # (128 + r) # rest) = (q * 64 + r) # utf8_points rest"
  using assms by (simp add: continues_def)

lemma points3:
  assumes "0 \<le> q" "q \<le> 15" "0 \<le> r" "r < 64" "0 \<le> s" "s < 64"
    and "q = 0 \<longrightarrow> 32 \<le> r" and "q = 13 \<longrightarrow> r < 32"
  shows "utf8_points ((224 + q) # (128 + r) # (128 + s) # rest)
           = (q * 4096 + r * 64 + s) # utf8_points rest"
  using assms by (auto simp: continues_def lowerBound_def upperBound_def)

lemma points4:
  assumes "0 \<le> q" "q \<le> 4" "0 \<le> r" "r < 64" "0 \<le> s" "s < 64" "0 \<le> t" "t < 64"
    and "q = 0 \<longrightarrow> 16 \<le> r" and "q = 4 \<longrightarrow> r < 16"
  shows "utf8_points ((240 + q) # (128 + r) # (128 + s) # (128 + t) # rest)
           = (q * 262144 + r * 4096 + s * 64 + t) # utf8_points rest"
  using assms by (auto simp: continues_def lowerBound_def upperBound_def)

lemma points_utf8_ints:
  assumes "scalar cp"
  shows "utf8_points (utf8_ints cp @ rest) = cp # utf8_points rest"
    and "\<forall>b \<in> set (utf8_ints cp). 0 \<le> b \<and> b < 256"
proof -
  define a where "a = cp div 64"
  define b where "b = a div 64"
  define c where "c = b div 64"
  have b_eq: "cp div 4096 = b"
    unfolding b_def a_def by (simp add: zdiv_zmult2_eq [symmetric])
  have c_eq: "cp div 262144 = c"
    unfolding c_def b_def a_def by (simp add: zdiv_zmult2_eq [symmetric])
  have v: "cp = 64 * a + cp mod 64" unfolding a_def by simp
  have va: "a = 64 * b + a mod 64" unfolding b_def by simp
  have vb: "b = 64 * c + b mod 64" unfolding c_def by simp
  have r: "0 \<le> cp mod 64" "cp mod 64 < 64" "0 \<le> a mod 64" "a mod 64 < 64"
    "0 \<le> b mod 64" "b mod 64 < 64"
    by simp_all
  have r8: "cp mod 64 < 128" "a mod 64 < 128" "b mod 64 < 128"
    using r by linarith+
  from assms have s: "0 \<le> cp" "cp < 1114112" "\<not> (55296 \<le> cp \<and> cp \<le> 57343)"
    by (simp_all add: scalar_def)
  consider "cp < 128" | "128 \<le> cp" "cp < 2048" | "2048 \<le> cp" "cp < 65536" | "65536 \<le> cp"
    by linarith
  then have "utf8_points (utf8_ints cp @ rest) = cp # utf8_points rest
             \<and> (\<forall>b \<in> set (utf8_ints cp). 0 \<le> b \<and> b < 256)"
  proof cases
    case 1
    with s show ?thesis by (simp add: utf8_ints_def)
  next
    case 2
    have q: "2 \<le> a" "a \<le> 31"
      using 2 v r by linarith+
    have e: "utf8_ints cp = [192 + a, 128 + cp mod 64]"
      using 2 by (simp add: utf8_ints_def a_def)
    have "a * 64 + cp mod 64 = cp"
      using v by linarith
    then have "utf8_points (utf8_ints cp @ rest) = cp # utf8_points rest"
      using points2 [OF q r(1,2), of rest] by (simp only: e append_Cons append_Nil)
    moreover have "\<forall>b \<in> set (utf8_ints cp). 0 \<le> b \<and> b < 256"
      unfolding e using q r r8 by simp
    ultimately show ?thesis by blast
  next
    case 3
    have q: "0 \<le> b" "b \<le> 15"
      using 3 v va r by linarith+
    have lo: "b = 0 \<longrightarrow> 32 \<le> a mod 64"
      using 3 v va r by linarith
    have hi: "b = 13 \<longrightarrow> a mod 64 < 32"
      using 3 s v va r by linarith
    have e: "utf8_ints cp = [224 + b, 128 + a mod 64, 128 + cp mod 64]"
      using 3 by (simp add: utf8_ints_def a_def b_eq)
    have "b * 4096 + a mod 64 * 64 + cp mod 64 = cp"
      using v va by linarith
    then have "utf8_points (utf8_ints cp @ rest) = cp # utf8_points rest"
      using points3 [OF q r(3,4) r(1,2) lo hi, of rest] by (simp only: e append_Cons append_Nil)
    moreover have "\<forall>b \<in> set (utf8_ints cp). 0 \<le> b \<and> b < 256"
      unfolding e using q r r8 by simp
    ultimately show ?thesis by blast
  next
    case 4
    have q: "0 \<le> c" "c \<le> 4"
      using 4 s v va vb r by linarith+
    have lo: "c = 0 \<longrightarrow> 16 \<le> b mod 64"
      using 4 v va vb r by linarith
    have hi: "c = 4 \<longrightarrow> b mod 64 < 16"
      using 4 s v va vb r by linarith
    have e: "utf8_ints cp = [240 + c, 128 + b mod 64, 128 + a mod 64, 128 + cp mod 64]"
      using 4 by (simp add: utf8_ints_def a_def b_eq c_eq b_def)
    have "c * 262144 + b mod 64 * 4096 + a mod 64 * 64 + cp mod 64 = cp"
      using v va vb by linarith
    then have "utf8_points (utf8_ints cp @ rest) = cp # utf8_points rest"
      using points4 [OF q r(5,6) r(3,4) r(1,2) lo hi, of rest] by (simp only: e append_Cons append_Nil)
    moreover have "\<forall>b \<in> set (utf8_ints cp). 0 \<le> b \<and> b < 256"
      unfolding e using q r r8 by simp
    ultimately show ?thesis by blast
  qed
  then show "utf8_points (utf8_ints cp @ rest) = cp # utf8_points rest"
    and "\<forall>b \<in> set (utf8_ints cp). 0 \<le> b \<and> b < 256"
    by blast+
qed

lemma uint_byte_id: "0 \<le> b \<Longrightarrow> b < 256 \<Longrightarrow> uint (word_of_int b :: byte) = b"
  by (simp add: uint_word_of_int)

lemma uint_utf8_bytes:
  assumes "scalar cp"
  shows "map uint (utf8_bytes cp) = utf8_ints cp"
proof -
  have "map (\<lambda>b. uint (word_of_int b :: byte)) (utf8_ints cp) = map (\<lambda>b. b) (utf8_ints cp)"
    using points_utf8_ints(2) [OF assms] by (intro map_cong) (simp_all add: uint_byte_id)
  then show ?thesis
    by (simp add: utf8_bytes_def comp_def)
qed

lemma utf8_decode_bytes:
  assumes "scalar cp"
  shows "utf8_decode (utf8_bytes cp @ rest) = utf16_units cp @ utf8_decode rest"
  using points_utf8_ints(1) [OF assms, of "map uint rest"]
  by (simp add: utf8_decode_def uint_utf8_bytes [OF assms])

lemma units_single:
  "\<not> isHighSurrogate u \<Longrightarrow> \<not> isLowSurrogate u \<Longrightarrow>
   scalar (uint u) \<and> utf16_units (uint u) = [u]"
proof -
  have "uint u < 65536"
    using uint_bounded [of u] by simp
  moreover assume "\<not> isHighSurrogate u" "\<not> isLowSurrogate u"
  ultimately show ?thesis
    by (auto simp: scalar_def utf16_units_def isHighSurrogate_def isLowSurrogate_def)
qed

lemma units_pair:
  assumes "isHighSurrogate hi" "isLowSurrogate lo"
  shows "scalar (codePoint hi lo) \<and> utf16_units (codePoint hi lo) = [hi, lo]"
proof -
  define h where "h = uint hi - 55296"
  define l where "l = uint lo - 56320"
  have hb: "0 \<le> h" "h < 1024" and lb: "0 \<le> l" "l < 1024"
    using assms by (simp_all add: isHighSurrogate_def isLowSurrogate_def h_def l_def)
  have cp: "codePoint hi lo = 65536 + h * 1024 + l"
    by (simp add: codePoint_def h_def l_def)
  have d: "(h * 1024 + l) div 1024 = h" and m: "(h * 1024 + l) mod 1024 = l"
    using hb lb by simp_all
  have "scalar (codePoint hi lo)"
    using hb lb by (simp add: scalar_def cp)
  moreover have "utf16_units (codePoint hi lo) = [hi, lo]"
    using hb lb by (simp add: utf16_units_def cp d m) (simp add: h_def l_def)
  ultimately show ?thesis by simp
qed

lemma scalar_replacement: "scalar 65533"
  by (simp add: scalar_def)

text \<open>
  Decoding the UTF-8 encoding of a string without lone surrogates gives the string back.
\<close>

lemma utf8_roundtrip: "wellFormed s \<Longrightarrow> utf8_decode (utf8_encode s) = s"
proof (induction s rule: utf8_chunks.induct)
  case 1
  show ?case by (simp add: utf8_encode_def utf8_decode_def)
next
  case (2 u)
  then show ?case
    using units_single [of u] utf8_decode_bytes [of "uint u" "[]"]
    by (simp add: utf8_encode_def) (simp add: utf8_decode_def)
next
  case (3 u v us)
  show ?case
  proof (cases "isHighSurrogate u")
    case True
    with "3.prems" have l: "isLowSurrogate v" and w: "wellFormed us" by simp_all
    from "3.IH"(1) True l w have "utf8_decode (utf8_encode us) = us" by simp
    then show ?thesis
      using True l units_pair [OF True l]
        utf8_decode_bytes [of "codePoint u v" "utf8_encode us"]
      by (simp add: utf8_encode_def)
  next
    case False
    with "3.prems" have n: "\<not> isLowSurrogate u" and w: "wellFormed (v # us)" by simp_all
    from "3.IH"(3) False n w have "utf8_decode (utf8_encode (v # us)) = v # us" by simp
    then show ?thesis
      using False n units_single [OF False n]
        utf8_decode_bytes [of "uint u" "utf8_encode (v # us)"]
      by (simp add: utf8_encode_def)
  qed
qed

lemma length_utf8_bytes: "1 \<le> length (utf8_bytes cp)"
  by (simp add: utf8_bytes_def utf8_ints_def)

lemma length_utf8_bytes_pair:
  "isHighSurrogate u \<Longrightarrow> isLowSurrogate v \<Longrightarrow> length (utf8_bytes (codePoint u v)) = 4"
  by (simp add: utf8_bytes_def utf8_ints_def codePoint_def isHighSurrogate_def
      isLowSurrogate_def)

lemma length_le_byteLength: "length s \<le> byteLength s"
proof (induction s rule: utf8_chunks.induct)
  case 1
  show ?case by (simp add: byteLength_def utf8_encode_def)
next
  case (2 u)
  show ?case
    using length_utf8_bytes [of 65533] length_utf8_bytes [of "uint u"]
    by (simp add: byteLength_def utf8_encode_def)
next
  case (3 u v us)
  show ?case
  proof (cases "isHighSurrogate u \<and> isLowSurrogate v")
    case True
    then have c: "utf8_chunks (u # v # us) = utf8_bytes (codePoint u v) # utf8_chunks us"
      by simp
    from True "3.IH"(1) have "length us \<le> byteLength us" by simp
    with True length_utf8_bytes_pair [of u v] show ?thesis
      by (simp add: byteLength_def utf8_encode_def c del: utf8_chunks.simps)
  next
    case False
    show ?thesis
    proof (cases "isHighSurrogate u \<or> isLowSurrogate u")
      case True
      have c: "utf8_chunks (u # v # us) = utf8_bytes 65533 # utf8_chunks (v # us)"
        by (simp add: False True)
      from False True "3.IH"(2) have "length (v # us) \<le> byteLength (v # us)" by simp
      with length_utf8_bytes [of 65533] show ?thesis
        by (simp add: byteLength_def utf8_encode_def c del: utf8_chunks.simps)
    next
      case n: False
      have c: "utf8_chunks (u # v # us) = utf8_bytes (uint u) # utf8_chunks (v # us)"
        by (simp add: False n)
      from False n "3.IH"(3) have "length (v # us) \<le> byteLength (v # us)" by simp
      with length_utf8_bytes [of "uint u"] show ?thesis
        by (simp add: byteLength_def utf8_encode_def c del: utf8_chunks.simps)
    qed
  qed
qed

lemma sevenBit_chunks:
  "list_all (\<lambda>u. uint u < 128) s \<Longrightarrow> utf8_chunks s = map (\<lambda>u. [word_of_int (uint u)]) s"
  by (induction s rule: utf8_chunks.induct)
    (simp_all add: isHighSurrogate_def isLowSurrogate_def utf8_bytes_def utf8_ints_def)

lemma sevenBit_encode:
  assumes "list_all (\<lambda>u. uint u < 128) s"
  shows "utf8_encode s = map (\<lambda>u. word_of_int (uint u)) s" and "byteLength s = length s"
proof -
  show "utf8_encode s = map (\<lambda>u. word_of_int (uint u)) s"
    by (simp add: utf8_encode_def sevenBit_chunks [OF assms] concat_map_singleton)
  then show "byteLength s = length s"
    by (simp add: byteLength_def)
qed

lemma byteLength_replicate_a: "byteLength (replicate n 0x61) = n"
proof -
  have "list_all (\<lambda>u. uint u < 128) (replicate n (0x61 :: 16 word))"
    by (simp add: list_all_iff)
  from sevenBit_encode(2) [OF this] show ?thesis
    by simp
qed

lemma ascii_unit:
  assumes "uint u < 128"
  shows "(word_of_int (uint (word_of_int (uint u mod 256) :: byte) mod 128) :: 16 word) = u"
proof -
  have a: "uint u mod 256 = uint u"
    using assms by simp
  have b: "uint (word_of_int (uint u) :: byte) = uint u"
    using assms by (intro uint_byte_id) simp_all
  have c: "uint u mod 128 = uint u"
    using assms by simp
  show ?thesis
    by (simp only: a b c word_of_int_uint)
qed

lemma sevenBit_ascii:
  assumes "list_all (\<lambda>u. uint u < 128) s"
  shows "ascii_decode (ascii_encode s) = s"
proof -
  have "map (\<lambda>u. word_of_int (uint (word_of_int (uint u mod 256) :: byte) mod 128) :: 16 word) s
          = s"
  proof (rule map_idI)
    fix x assume "x \<in> set s"
    with assms have "uint x < 128"
      by (simp add: list_all_iff)
    then show "(word_of_int (uint (word_of_int (uint x mod 256) :: byte) mod 128) :: 16 word) = x"
      by (rule ascii_unit)
  qed
  then show ?thesis
    unfolding ascii_decode_def ascii_encode_def by (simp only: map_map comp_def)
qed

lemma bodyBytes_empty: "bodyBytes enc [] = []"
  by (cases enc) (simp_all add: bodyBytes_def utf8_encode_def ascii_encode_def byteLength_def)

lemma byteLength_empty: "byteLength [] = 0"
  by (simp add: byteLength_def utf8_encode_def)

section \<open>The codec\<close>

lemma uint_byte: "uint (word_of_int v :: byte) = v mod 256"
  by (simp add: uint_word_of_int)

lemma sint_byte: "- 128 \<le> v \<Longrightarrow> v < 128 \<Longrightarrow> sint (word_of_int v :: byte) = v"
  by (simp add: sint_sbintrunc' signed_take_bit_int_eq_self)

lemma int32_value:
  fixes v :: int
  assumes "- 2147483648 \<le> v" "v \<le> 2147483647"
  shows "uint (word_of_int v :: byte) + uint (word_of_int (v div 256) :: byte) * 256
         + uint (word_of_int (v div 65536) :: byte) * 65536
         + sint (word_of_int (v div 16777216) :: byte) * 16777216 = v"
proof -
  define a where "a = v div 256"
  define b where "b = a div 256"
  define c where "c = b div 256"
  have b_eq: "v div 65536 = b"
    unfolding b_def a_def by (simp add: zdiv_zmult2_eq [symmetric])
  have c_eq: "v div 16777216 = c"
    unfolding c_def b_def a_def by (simp add: zdiv_zmult2_eq [symmetric])
  have v: "v = 256 * a + v mod 256" unfolding a_def by simp
  have a: "a = 256 * b + a mod 256" unfolding b_def by simp
  have b: "b = 256 * c + b mod 256" unfolding c_def by simp
  have r: "0 \<le> v mod 256" "v mod 256 < 256" "0 \<le> a mod 256" "a mod 256 < 256"
    "0 \<le> b mod 256" "b mod 256 < 256"
    by simp_all
  have hi: "- 128 \<le> c" "c < 128"
    using assms v a b r by linarith+
  have "uint (word_of_int v :: byte) = v mod 256"
    "uint (word_of_int (v div 256) :: byte) = a mod 256"
    "uint (word_of_int (v div 65536) :: byte) = b mod 256"
    "sint (word_of_int (v div 16777216) :: byte) = c"
    using hi by (simp_all add: uint_byte sint_byte b_eq c_eq a_def)
  then show ?thesis
    using v a b by linarith
qed

lemma length_int32_bytes: "length (int32_bytes v) = 4"
  by (simp add: int32_bytes_def)

lemma readInt32LE_at:
  assumes "- 2147483648 \<le> v" "v \<le> 2147483647"
  shows "readInt32LE (pre @ int32_bytes v @ post) (length pre) = Inr v"
  using int32_value [OF assms]
  by (simp add: readInt32LE_def int32_bytes_def nth_append)

lemma zeros_region:
  "take k (drop m ((0::byte) # 0 # replicate n 0)) = replicate (min k (Suc (Suc n) - m)) 0"
  by (simp only: replicate_Suc [symmetric] drop_replicate take_replicate)

lemma fitting_all: "length (concat cs) \<le> n \<Longrightarrow> fitting n cs = cs"
  by (induction cs arbitrary: n) simp_all

lemma encodeInto_whole:
  "byteLength s \<le> n \<Longrightarrow> encodeInto enc s n = (case enc of Utf8 \<Rightarrow> utf8_encode s | Ascii \<Rightarrow> ascii_encode s)"
proof (cases enc)
  case Utf8
  assume "byteLength s \<le> n"
  then show ?thesis
    by (simp add: Utf8 encodeInto_def byteLength_def utf8_encode_def fitting_all)
next
  case Ascii
  assume "byteLength s \<le> n"
  with length_le_byteLength [of s] have "length s \<le> n" by linarith
  then show ?thesis
    by (simp add: Ascii encodeInto_def ascii_encode_def)
qed

lemma length_bodyBytes: "length (bodyBytes enc body) = byteLength body"
  using length_le_byteLength [of body]
  by (cases enc) (simp_all add: bodyBytes_def byteLength_def ascii_encode_def)

text \<open>
  Encoding either throws the RangeError of \<open>writeInt32LE\<close> or produces the packet layout:
  the three little-endian fields, the bytes of the body and two zero bytes.
\<close>

lemma encodePacket_eq:
  "encodePacket enc type ident body =
     (if int (byteLength body) + 10 \<le> 2147483647 \<and> isInt32 ident \<and> isInt32 type
      then Inr (frameBytes type ident (bodyBytes enc body)) else Inl RangeError)"
proof -
  have w: "encodeInto enc body (min (byteLength body + 12) (byteLength body + 2))
             = (case enc of Utf8 \<Rightarrow> utf8_encode body | Ascii \<Rightarrow> ascii_encode body)"
    by (rule encodeInto_whole) simp
  have l: "length (case enc of Utf8 \<Rightarrow> utf8_encode body | Ascii \<Rightarrow> ascii_encode body)
             \<le> byteLength body"
    using length_le_byteLength [of body]
    by (cases enc) (simp_all add: byteLength_def ascii_encode_def)
  show ?thesis
  proof (cases enc)
    case Utf8
    then show ?thesis
      using w
      by (simp add: encodePacket_def Let_def writeInt32LE_def writeInt16LE_def
          bufWrite_def writeBytes_def alloc_def frameBytes_def isInt32_def length_int32_bytes
          bodyBytes_def byteLength_def add.commute)
  next
    case Ascii
    then show ?thesis
      using w length_le_byteLength [of body]
      by (simp add: encodePacket_def Let_def writeInt32LE_def writeInt16LE_def
          bufWrite_def writeBytes_def alloc_def frameBytes_def isInt32_def length_int32_bytes
          bodyBytes_def ascii_encode_def add.commute zeros_region min_def)
  qed
qed

lemma length_frameBytes: "length (frameBytes type ident payload) = length payload + 14"
  by (simp add: frameBytes_def length_int32_bytes)

lemma decodePacket_frameBytes:
  assumes "int (length payload) + 10 \<le> 2147483647" "isInt32 ident" "isInt32 type"
  shows "decodePacket enc (frameBytes type ident payload) =
           Inr \<lparr>pkt_size = int (length payload) + 10, pkt_id = ident, pkt_type = type,
                pkt_body = decodeBytes enc payload\<rparr>"
proof -
  let ?f = "frameBytes type ident payload"
  have s: "readInt32LE ?f 0 = Inr (int (length payload) + 10)"
    using readInt32LE_at [of "int (length payload) + 10" "[]"] assms(1)
    by (simp add: frameBytes_def)
  have i: "readInt32LE ?f 4 = Inr ident"
    using readInt32LE_at [of ident "int32_bytes (int (length payload) + 10)"] assms(2)
    by (simp add: frameBytes_def isInt32_def length_int32_bytes)
  have t: "readInt32LE ?f 8 = Inr type"
    using readInt32LE_at [of type "int32_bytes (int (length payload) + 10) @ int32_bytes ident"]
      assms(3)
    by (simp add: frameBytes_def isInt32_def length_int32_bytes)
  have b: "toString ?f enc 12 (int (length ?f) - 2) = decodeBytes enc payload"
    by (simp add: toString_def frameBytes_def length_int32_bytes)
  show ?thesis
    by (simp add: decodePacket_def s i t b)
qed

lemma decodeBytes_bodyBytes:
  assumes "roundTrips enc body"
  shows "decodeBytes enc (bodyBytes enc body) = body"
proof (cases enc)
  case Utf8
  with assms show ?thesis
    by (simp add: roundTrips_def decodeBytes_def bodyBytes_def utf8_roundtrip)
next
  case Ascii
  with assms have s: "list_all (\<lambda>u. uint u < 128) body"
    by (simp add: roundTrips_def)
  show ?thesis
    by (simp add: Ascii decodeBytes_def bodyBytes_def sevenBit_encode(2) [OF s]
        sevenBit_ascii [OF s])
qed

lemma encodePacket_empty_END:
  "isInt32 type \<Longrightarrow> encodePacket enc type END [] = Inr (frameBytes type END [])"
  by (simp add: encodePacket_eq isInt32_def END_def bodyBytes_empty byteLength_empty)




section \<open>The reassembly loop\<close>

lemma decodeLoop_short:
  "length incoming < 4 \<Longrightarrow> decodeLoop enc incoming packets = Some (Packets packets incoming)"
  by (subst decodeLoop.simps) simp

lemma decodeLoop_wait:
  assumes "4 \<le> length incoming" "readInt32LE incoming 0 = Inr sz"
    and "probe enc incoming sz = Inr False" "int (length incoming) < sz + 4"
  shows "decodeLoop enc incoming packets = Some (Packets packets incoming)"
  by (subst decodeLoop.simps) (simp add: assms)

lemma decodeLoop_emit:
  assumes "4 \<le> length incoming" "readInt32LE incoming 0 = Inr sz"
    and "probe enc incoming sz = Inr False" "\<not> int (length incoming) < sz + 4"
  shows "decodeLoop enc incoming packets =
           decodeLoop enc (sliceFrom incoming (sz + 4)) (packets @ [slice incoming 0 (sz + 4)])"
  by (subst decodeLoop.simps) (simp add: assms)

lemma decodeLoop_discard:
  assumes "4 \<le> length incoming" "readInt32LE incoming 0 = Inr sz"
    and "probe enc incoming sz = Inr True"
  shows "decodeLoop enc incoming packets = decodeLoop enc (sliceFrom incoming 21) packets"
  by (subst decodeLoop.simps) (simp add: assms)

text \<open>The packets found so far are only ever extended.\<close>

lemma decodeLoop_prepend:
  assumes "decodeLoop enc incoming packets = Some x"
  shows "decodeLoop enc incoming (pre @ packets) = Some (prepend pre x)"
proof -
  have "\<forall>pre. decodeLoop enc incoming (pre @ packets) = Some (prepend pre x)"
  proof (rule decodeLoop.raw_induct
      [where P = "\<lambda>enc incoming packets x.
                    \<forall>pre. decodeLoop enc incoming (pre @ packets) = Some (prepend pre x)",
       OF _ assms])
    fix loop enc incoming packets x
    assume IH: "\<And>enc incoming packets x. loop enc incoming packets = Some x \<Longrightarrow>
                  \<forall>pre. decodeLoop enc incoming (pre @ packets) = Some (prepend pre x)"
    assume body: "(if 4 \<le> length incoming
      then case readInt32LE incoming 0 of Inl e \<Rightarrow> Some (Failed e incoming)
           | Inr sz \<Rightarrow>
               case probe enc incoming sz of
               Inl e \<Rightarrow> Some (Failed e incoming)
               | Inr broken \<Rightarrow>
                   if broken
                   then loop enc (sliceFrom incoming 21) packets
                   else if int (length incoming) < sz + 4
                        then Some (Packets packets incoming)
                        else loop enc (sliceFrom incoming (sz + 4))
                              (packets @ [slice incoming 0 (sz + 4)])
      else Some (Packets packets incoming)) = Some x"
    show "\<forall>pre. decodeLoop enc incoming (pre @ packets) = Some (prepend pre x)"
    proof
      fix pre
      show "decodeLoop enc incoming (pre @ packets) = Some (prepend pre x)"
      proof (cases "4 \<le> length incoming")
        case False
        with body show ?thesis
          by (auto simp: decodeLoop_short)
      next
        case long: True
        show ?thesis
        proof (cases "readInt32LE incoming 0")
          case (Inl e)
          with long body have "x = Failed e incoming" by simp
          with long Inl show ?thesis
            by (subst decodeLoop.simps) simp
        next
          case (Inr sz)
          show ?thesis
          proof (cases "probe enc incoming sz")
            case (Inl e)
            with long Inr body have "x = Failed e incoming" by simp
            with long Inr Inl show ?thesis
              by (subst decodeLoop.simps) simp
          next
            case p: (Inr broken)
            show ?thesis
            proof (cases broken)
              case True
              with long Inr p body
              have "loop enc (sliceFrom incoming 21) packets = Some x" by simp
              from IH [OF this] show ?thesis
                using long Inr p True by (simp add: decodeLoop_discard)
            next
              case False
              show ?thesis
              proof (cases "int (length incoming) < sz + 4")
                case w: True
                with long Inr p False body have "x = Packets packets incoming" by simp
                with long Inr p False w show ?thesis
                  by (simp add: decodeLoop_wait)
              next
                case e: False
                with long Inr p False body
                have "loop enc (sliceFrom incoming (sz + 4))
                        (packets @ [slice incoming 0 (sz + 4)]) = Some x" by simp
                from IH [OF this] show ?thesis
                  using long Inr p False e by (simp add: decodeLoop_emit)
              qed
            qed
          qed
        qed
      qed
    qed
  qed
  then show ?thesis by blast
qed

lemma slice_prefix: "0 \<le> n \<Longrightarrow> slice buf 0 n = take (nat n) buf"
  by (simp add: slice_def sliceIndex_def min_def)

lemma sliceFrom_drop: "0 \<le> n \<Longrightarrow> sliceFrom buf n = drop (nat n) buf"
  by (simp add: sliceFrom_def sliceIndex_def min_def)

lemma readInt32LE_append:
  "4 \<le> length buf \<Longrightarrow> readInt32LE (buf @ rest) 0 = readInt32LE buf 0"
  by (auto simp: readInt32LE_def nth_append)

lemma readInt32LE_take:
  "4 \<le> n \<Longrightarrow> 4 \<le> length buf \<Longrightarrow> readInt32LE (take n buf) 0 = readInt32LE buf 0"
  by (simp add: readInt32LE_def)

lemma decodePacket_size:
  "decodePacket enc packet = Inr p \<Longrightarrow>
   readInt32LE packet 0 = Inr (pkt_size p) \<and> 12 \<le> length packet"
  by (auto simp: decodePacket_def readInt32LE_def split: sum.splits if_splits)

lemma readInt32LE_frameBytes:
  assumes "int (length payload) + 10 \<le> 2147483647"
  shows "readInt32LE (frameBytes type ident payload) 0 = Inr (int (length payload) + 10)"
  using readInt32LE_at [of "int (length payload) + 10" "[]"] assms
  by (simp add: frameBytes_def)

lemma decodeLoop_partial_frame:
  assumes "int (length payload) + 10 \<le> 2147483647"
    and "n < length payload + 14"
  shows "decodeLoop enc (take n (frameBytes type ident payload)) packets
           = Some (Packets packets (take n (frameBytes type ident payload)))"
proof (cases "n < 4")
  case True
  then show ?thesis by (simp add: decodeLoop_short)
next
  case False
  let ?p = "take n (frameBytes type ident payload)"
  have len: "length ?p = n"
    using assms(2) by (simp add: length_frameBytes)
  have s: "readInt32LE ?p 0 = Inr (int (length payload) + 10)"
    using False readInt32LE_frameBytes [OF assms(1)]
    by (simp add: readInt32LE_take length_frameBytes)
  have "\<not> (int (length payload) + 10 = 10 \<and> 17 \<le> length ?p)"
    using assms(2) len by auto
  then have p: "probe enc ?p (int (length payload) + 10) = Inr False"
    by (simp only: probe_def if_False)
  show ?thesis
    using False assms(2) len decodeLoop_wait [OF _ s p] by simp
qed

lemma decodeLoop_whole_frame:
  assumes "int (length payload) + 10 \<le> 2147483647"
  shows "decodeLoop enc (frameBytes type ident payload) packets
           = Some (Packets (packets @ [frameBytes type ident payload]) [])"
proof -
  let ?f = "frameBytes type ident payload"
  have s: "readInt32LE ?f 0 = Inr (int (length payload) + 10)"
    by (rule readInt32LE_frameBytes [OF assms])
  have "\<not> (int (length payload) + 10 = 10 \<and> 17 \<le> length ?f)"
    by (auto simp: length_frameBytes)
  then have p: "probe enc ?f (int (length payload) + 10) = Inr False"
    by (simp only: probe_def if_False)
  have "decodeLoop enc ?f packets
          = decodeLoop enc (sliceFrom ?f (int (length payload) + 10 + 4))
              (packets @ [slice ?f 0 (int (length payload) + 10 + 4)])"
    using decodeLoop_emit [OF _ s p] by (simp add: length_frameBytes)
  then show ?thesis
    by (simp add: sliceFrom_drop slice_prefix length_frameBytes decodeLoop_short)
qed

text \<open>
  C3. Suppression of the broken packet, on a reassembler with an empty buffer that is fed
  one chunk. When the chunk starts with 21 bytes whose declared size is 10 and whose
  decoded body is the seven-byte pattern, \<open>_decodeData\<close> returns exactly the packets of
  the bytes behind them and keeps what those bytes leave over: nothing is extracted for the
  21 bytes and exactly these are removed. When the chunk starts with a 14-byte packet of
  declared size 10 and the body decoded from the first 21 bytes is not the pattern, the
  14 bytes are the first packet returned, followed by the packets of the bytes behind them.
\<close>

theorem quirk_suppression:
  assumes "decodeLoop (encoding st) rest [] = Some (Packets later left)"
    and "incomingData st = []"
  shows "(length q = 21 \<and> decodePacket (encoding st) q = Inr p \<and> pkt_size p = 10
          \<and> pkt_body p = brokenBody \<longrightarrow>
            decodeData st (q @ rest) = Some (Decoded later (st\<lparr>incomingData := left\<rparr>)))
         \<and> (length f = 14 \<and> decodePacket (encoding st) (take 21 (f @ rest)) = Inr pb
             \<and> pkt_size pb = 10 \<and> pkt_body pb \<noteq> brokenBody \<longrightarrow>
            decodeData st (f @ rest) = Some (Decoded (f # later) (st\<lparr>incomingData := left\<rparr>)))"
proof (intro conjI impI)
  let ?enc = "encoding st"
  assume a: "length q = 21 \<and> decodePacket ?enc q = Inr p \<and> pkt_size p = 10
             \<and> pkt_body p = brokenBody"
  then have s: "readInt32LE (q @ rest) 0 = Inr 10"
    using decodePacket_size [of ?enc q p] by (simp add: readInt32LE_append)
  have pr: "probe ?enc (q @ rest) 10 = Inr True"
    using a by (simp add: probe_def slice_prefix)
  have "decodeLoop ?enc (q @ rest) [] = decodeLoop ?enc rest []"
    using a decodeLoop_discard [OF _ s pr, of "[]"] by (simp add: sliceFrom_drop)
  then show "decodeData st (q @ rest) = Some (Decoded later (st\<lparr>incomingData := left\<rparr>))"
    by (simp add: decodeData_def assms)
next
  let ?enc = "encoding st"
  assume b: "length f = 14 \<and> decodePacket ?enc (take 21 (f @ rest)) = Inr pb
             \<and> pkt_size pb = 10 \<and> pkt_body pb \<noteq> brokenBody"
  then have "readInt32LE (take 21 (f @ rest)) 0 = Inr (pkt_size pb)"
    using decodePacket_size [of ?enc "take 21 (f @ rest)" pb] by blast
  moreover have "readInt32LE (take 21 (f @ rest)) 0 = readInt32LE (f @ rest) 0"
    using b by (intro readInt32LE_take) simp_all
  ultimately have s: "readInt32LE (f @ rest) 0 = Inr 10"
    using b by simp
  have "slice (f @ rest) 0 21 = take (nat 21) (f @ rest)"
    by (rule slice_prefix) simp
  then have "slice (f @ rest) 0 21 = take 21 (f @ rest)"
    by (simp only: nat_numeral)
  then have "decodePacket ?enc (slice (f @ rest) 0 21) = Inr pb"
    using b by (simp only:)
  then have pr: "probe ?enc (f @ rest) 10 = Inr False"
    using b by (simp only: probe_def sum.case if_True if_False simp_thms split: if_split)
  have "decodeLoop ?enc (f @ rest) [] = decodeLoop ?enc rest ([] @ [f])"
    using b decodeLoop_emit [OF _ s pr, of "[]"] by (simp add: sliceFrom_drop slice_prefix)
  also have "\<dots> = Some (prepend [f] (Packets later left))"
    using decodeLoop_prepend [OF assms(1), of "[f]"] by simp
  finally show "decodeData st (f @ rest)
                  = Some (Decoded (f # later) (st\<lparr>incomingData := left\<rparr>))"
    by (simp add: decodeData_def assms(2))
qed

theorem quirk_suppression_witness:
  "decodeLoop (encoding (Rcon (js ''pw'') None None))
     [10, 0, 0, 0, 2, 0, 0, 0, 0, 0, 0, 0, 0, 0, 5, 0] []
     = Some (Packets [[10, 0, 0, 0, 2, 0, 0, 0, 0, 0, 0, 0, 0, 0]] [5, 0])
   \<and> incomingData (Rcon (js ''pw'') None None) = []
   \<and> decodePacket (encoding (Rcon (js ''pw'') None None))
        [10, 0, 0, 0, 2, 0, 0, 0, 0, 0, 0, 0, 0, 0, 0, 1, 0, 0, 0, 0, 0]
       = Inr \<lparr>pkt_size = 10, pkt_id = 2, pkt_type = 0, pkt_body = brokenBody\<rparr>
   \<and> decodeData (Rcon (js ''pw'') None None)
        ([10, 0, 0, 0, 2, 0, 0, 0, 0, 0, 0, 0, 0, 0, 0, 1, 0, 0, 0, 0, 0]
         @ [10, 0, 0, 0, 2, 0, 0, 0, 0, 0, 0, 0, 0, 0, 5, 0])
       = Some (Decoded [[10, 0, 0, 0, 2, 0, 0, 0, 0, 0, 0, 0, 0, 0]]
                ((Rcon (js ''pw'') None None)\<lparr>incomingData := [5, 0]\<rparr>))
   \<and> decodePacket (encoding (Rcon (js ''pw'') None None))
        (take 21 ([10, 0, 0, 0, 1, 0, 0, 0, 0, 0, 0, 0, 0, 0]
                  @ [10, 0, 0, 0, 2, 0, 0, 0, 0, 0, 0, 0, 0, 0, 5, 0]))
       = Inr \<lparr>pkt_size = 10, pkt_id = 1, pkt_type = 0, pkt_body = [0, 0, 10, 0, 0, 0, 2]\<rparr>
   \<and> decodeData (Rcon (js ''pw'') None None)
        ([10, 0, 0, 0, 1, 0, 0, 0, 0, 0, 0, 0, 0, 0]
         @ [10, 0, 0, 0, 2, 0, 0, 0, 0, 0, 0, 0, 0, 0, 5, 0])
       = Some (Decoded [[10, 0, 0, 0, 1, 0, 0, 0, 0, 0, 0, 0, 0, 0],
                        [10, 0, 0, 0, 2, 0, 0, 0, 0, 0, 0, 0, 0, 0]]
                ((Rcon (js ''pw'') None None)\<lparr>incomingData := [5, 0]\<rparr>))"
proof -
  let ?st = "Rcon (js ''pw'') None None"
  let ?q = "[10, 0, 0, 0, 2, 0, 0, 0, 0, 0, 0, 0, 0, 0, 0, 1, 0, 0, 0, 0, 0] :: buffer"
  let ?f = "[10, 0, 0, 0, 1, 0, 0, 0, 0, 0, 0, 0, 0, 0] :: buffer"
  let ?g = "[10, 0, 0, 0, 2, 0, 0, 0, 0, 0, 0, 0, 0, 0] :: buffer"
  let ?rest = "[10, 0, 0, 0, 2, 0, 0, 0, 0, 0, 0, 0, 0, 0, 5, 0] :: buffer"
  let ?p = "\<lparr>pkt_size = 10, pkt_id = 2, pkt_type = 0, pkt_body = brokenBody\<rparr>"
  let ?pb = "\<lparr>pkt_size = 10, pkt_id = 1, pkt_type = 0, pkt_body = [0, 0, 10, 0, 0, 0, 2]\<rparr>"
  have r: "decodeLoop (encoding ?st) ?rest [] = Some (Packets [?g] [5, 0])"
    by code_simp
  have i: "incomingData ?st = []"
    by (simp add: Rcon_def)
  have d: "decodePacket (encoding ?st) ?q = Inr ?p"
    by code_simp
  have e: "decodePacket (encoding ?st) (take 21 (?f @ ?rest)) = Inr ?pb"
    by code_simp
  have n: "pkt_body ?pb \<noteq> brokenBody"
    by (simp add: brokenBody_def)
  note t = quirk_suppression [OF r i, of ?q ?p ?f ?pb]
  have h1: "length ?q = 21 \<and> decodePacket (encoding ?st) ?q = Inr ?p \<and> pkt_size ?p = 10
            \<and> pkt_body ?p = brokenBody"
    using d by simp
  have h2: "length ?f = 14 \<and> decodePacket (encoding ?st) (take 21 (?f @ ?rest)) = Inr ?pb
            \<and> pkt_size ?pb = 10 \<and> pkt_body ?pb \<noteq> brokenBody"
    using e n by simp
  from t h1 have c1: "decodeData ?st (?q @ ?rest)
                        = Some (Decoded [?g] (?st\<lparr>incomingData := [5, 0]\<rparr>))"
    by blast
  from t h2 have c2: "decodeData ?st (?f @ ?rest)
                        = Some (Decoded [?f, ?g] (?st\<lparr>incomingData := [5, 0]\<rparr>))"
    by blast
  from r i d c1 e c2 show ?thesis
    by blast
qed

text \<open>
  C10. The probe can match across a packet boundary. An empty-body packet (declared size
  10, any type and id), which alone is extracted as one packet, followed by a chat packet
  with id 0 and a body of 246 bytes (declared size 256): the 21-byte window covers the 14
  bytes of the first packet and the first 7 of the second, its body is the pattern, the
  21 bytes are discarded, and the call extracts no packet at all.
\<close>

theorem quirk_probe_crosses_frames:
  assumes "isInt32 type" "isInt32 ident" "byteLength body = 246"
  shows "encodePacket enc type ident [] = Inr (frameBytes type ident [])
         \<and> encodePacket enc CHAT_VALUE 0 body = Inr (frameBytes CHAT_VALUE 0 (bodyBytes enc body))
         \<and> decodeLoop enc (frameBytes type ident []) [] = Some (Packets [frameBytes type ident []] [])
         \<and> decodeLoop enc (frameBytes type ident [] @ frameBytes CHAT_VALUE 0 (bodyBytes enc body)) []
             = Some (Packets [] (drop 7 (frameBytes CHAT_VALUE 0 (bodyBytes enc body))))"
proof -
  let ?a = "frameBytes type ident []"
  let ?b = "frameBytes CHAT_VALUE 0 (bodyBytes enc body)"
  have len: "length (bodyBytes enc body) = 246"
    using assms(3) by (simp add: length_bodyBytes)
  have nil: "bodyBytes enc [] = []"
    by (cases enc) (simp_all add: bodyBytes_def utf8_encode_def ascii_encode_def byteLength_def)
  have e1: "encodePacket enc type ident [] = Inr ?a"
    using assms by (simp add: encodePacket_eq nil byteLength_def utf8_encode_def)
  have e2: "encodePacket enc CHAT_VALUE 0 body = Inr ?b"
    using assms by (simp add: encodePacket_eq isInt32_def CHAT_VALUE_def)
  have alone: "decodeLoop enc ?a [] = Some (Packets [?a] [])"
    using decodeLoop_whole_frame [of "[]" enc type ident "[]"] by simp
  have b: "?b = [0, 1, 0, 0, 0, 0, 0, 0, 1, 0, 0, 0] @ bodyBytes enc body @ [0, 0]"
    using len by (simp add: frameBytes_def int32_bytes_def CHAT_VALUE_def)
  have la: "length ?a = 14" and lb: "length ?b = 260"
    using len by (simp_all add: length_frameBytes)
  have s: "readInt32LE (?a @ ?b) 0 = Inr 10"
    using readInt32LE_frameBytes [of "[]" type ident] la
    by (simp add: readInt32LE_append)
  have w: "take 7 ?b = [0, 1, 0, 0, 0, 0, 0]"
    by (simp add: b)
  have "decodeBytes Utf8 [0, 0, 0, 1, 0, 0, 0] = brokenBody"
    and "decodeBytes Ascii [0, 0, 0, 1, 0, 0, 0] = brokenBody"
    by code_simp+
  then have pat: "decodeBytes enc [0, 0, 0, 1, 0, 0, 0] = brokenBody"
    by (cases enc) simp_all
  have d: "decodePacket enc (?a @ [0, 1, 0, 0, 0, 0, 0])
             = Inr \<lparr>pkt_size = 10, pkt_id = ident, pkt_type = type, pkt_body = brokenBody\<rparr>"
    using readInt32LE_at [of 10 "[]" "int32_bytes ident @ int32_bytes type @ [0, 0, 0, 1, 0, 0, 0, 0, 0]"]
      readInt32LE_at [of ident "int32_bytes 10" "int32_bytes type @ [0, 0, 0, 1, 0, 0, 0, 0, 0]"]
      readInt32LE_at [of type "int32_bytes 10 @ int32_bytes ident" "[0, 0, 0, 1, 0, 0, 0, 0, 0]"]
      assms(1,2)
    by (simp add: decodePacket_def frameBytes_def isInt32_def length_int32_bytes
        toString_def pat)
  have p: "probe enc (?a @ ?b) 10 = Inr True"
    using la lb by (simp add: probe_def slice_prefix w d)
  have step1: "decodeLoop enc (?a @ ?b) [] = decodeLoop enc (drop 7 ?b) []"
    using decodeLoop_discard [OF _ s p, of "[]"] la lb by (simp add: sliceFrom_drop)
  have r: "drop 7 ?b = [0, 1, 0, 0, 0] @ bodyBytes enc body @ [0, 0]"
    by (simp add: b)
  have lr: "length (drop 7 ?b) = 253"
    using lb by simp
  have s2: "readInt32LE (drop 7 ?b) 0 = Inr 256"
    by (simp add: r readInt32LE_def)
  have p2: "probe enc (drop 7 ?b) 256 = Inr False"
    by (simp add: probe_def)
  have step2: "decodeLoop enc (drop 7 ?b) [] = Some (Packets [] (drop 7 ?b))"
    using decodeLoop_wait [OF _ s2 p2, of "[]"] lr by simp
  show ?thesis
    using e1 e2 alone step1 step2 by simp
qed

theorem quirk_probe_crosses_frames_witness:
  "isInt32 RESPONSE_VALUE \<and> isInt32 END \<and> byteLength (replicate 246 0x61) = 246
   \<and> decodeLoop Utf8 (frameBytes RESPONSE_VALUE END []
                   @ frameBytes CHAT_VALUE 0 (bodyBytes Utf8 (replicate 246 0x61))) []
       = Some (Packets [] (drop 7 (frameBytes CHAT_VALUE 0 (bodyBytes Utf8 (replicate 246 0x61)))))
   \<and> frameBytes RESPONSE_VALUE END [] = [10, 0, 0, 0, 2, 0, 0, 0, 0, 0, 0, 0, 0, 0]
   \<and> take 12 (frameBytes CHAT_VALUE 0 (bodyBytes Utf8 (replicate 246 0x61)))
       = [0, 1, 0, 0, 0, 0, 0, 0, 1, 0, 0, 0]"
proof -
  have a: "isInt32 RESPONSE_VALUE" "isInt32 END"
    by (simp_all add: isInt32_def RESPONSE_VALUE_def END_def)
  have l: "byteLength (replicate 246 0x61) = 246"
    by (rule byteLength_replicate_a)
  have f: "frameBytes RESPONSE_VALUE END [] = [10, 0, 0, 0, 2, 0, 0, 0, 0, 0, 0, 0, 0, 0]"
    by (simp add: frameBytes_def int32_bytes_def RESPONSE_VALUE_def END_def)
  have "length (bodyBytes Utf8 (replicate 246 0x61)) = 246"
    by (simp only: length_bodyBytes l)
  then have g: "take 12 (frameBytes CHAT_VALUE 0 (bodyBytes Utf8 (replicate 246 0x61)))
       = [0, 1, 0, 0, 0, 0, 0, 0, 1, 0, 0, 0]"
    by (simp add: frameBytes_def int32_bytes_def CHAT_VALUE_def)
  note t = quirk_probe_crosses_frames [OF a l, of Utf8]
  from t have c: "decodeLoop Utf8 (frameBytes RESPONSE_VALUE END []
                   @ frameBytes CHAT_VALUE 0 (bodyBytes Utf8 (replicate 246 0x61))) []
       = Some (Packets [] (drop 7 (frameBytes CHAT_VALUE 0 (bodyBytes Utf8 (replicate 246 0x61)))))"
    by blast
  from a l c f g show ?thesis
    by blast
qed

lemma feedAll_empty_chunks:
  "\<forall>c \<in> set chunks. c = [] \<Longrightarrow>
   feedAll (st\<lparr>incomingData := []\<rparr>) chunks = Some (Decoded [] (st\<lparr>incomingData := []\<rparr>))"
  by (induction chunks) (simp_all add: decodeData_def decodeLoop_short)

lemma feedAll_frame:
  assumes "int (length body) + 10 \<le> 2147483647"
  shows "n < length (frameBytes type ident body) \<Longrightarrow>
         take n (frameBytes type ident body) @ concat chunks = frameBytes type ident body \<Longrightarrow>
         feedAll (st\<lparr>incomingData := take n (frameBytes type ident body)\<rparr>) chunks
           = Some (Decoded [frameBytes type ident body] (st\<lparr>incomingData := []\<rparr>))"
proof (induction chunks arbitrary: n)
  case Nil
  let ?F = "frameBytes type ident body"
  from Nil.prems(2) have "take n ?F = ?F"
    by simp
  then have "length (take n ?F) = length ?F"
    by (rule arg_cong)
  with Nil.prems(1) show ?case
    by simp
next
  case (Cons c cs)
  let ?F = "frameBytes type ident body"
  let ?m = "n + length c"
  have ln: "length (take n ?F) = n"
    using Cons.prems(1) by simp
  have eq: "take n ?F @ c @ concat cs = ?F"
    using Cons.prems(2) by simp
  have "take ?m (take n ?F @ c @ concat cs) = take n ?F @ c"
    using ln by simp
  then have pre: "take n ?F @ c = take ?m ?F"
    by (simp only: eq)
  have total: "length ?F = n + length c + length (concat cs)"
    using arg_cong [OF eq, of length] ln by simp
  show ?case
  proof (cases "?m < length ?F")
    case True
    have "decodeLoop (encoding st) (take ?m ?F) [] = Some (Packets [] (take ?m ?F))"
      using True decodeLoop_partial_frame [OF assms, of ?m "encoding st" type ident "[]"]
      by (simp add: length_frameBytes)
    then have d: "decodeData (st\<lparr>incomingData := take n ?F\<rparr>) c
                    = Some (Decoded [] (st\<lparr>incomingData := take ?m ?F\<rparr>))"
      by (simp add: decodeData_def pre)
    have "take ?m ?F @ concat cs = ?F"
      by (simp only: pre [symmetric] append_assoc eq)
    from Cons.IH [OF True this] d show ?thesis
      by simp
  next
    case False
    with total have "length (concat cs) = 0"
      by linarith
    then have rest: "concat cs = []"
      by (simp only: length_0_conv)
    have whole: "take n ?F @ c = ?F"
      using eq by (simp only: rest append_Nil2)
    have d: "decodeData (st\<lparr>incomingData := take n ?F\<rparr>) c
               = Some (Decoded [?F] (st\<lparr>incomingData := []\<rparr>))"
      using decodeLoop_whole_frame [OF assms, of "encoding st" type ident "[]"]
      by (simp add: decodeData_def whole)
    have "\<forall>x \<in> set cs. x = []"
      using rest by simp
    from feedAll_empty_chunks [OF this, of st] d show ?thesis
      by simp
  qed
qed

text \<open>
  C6. Chunk-boundary independence. For a packet produced by \<open>_encodePacket\<close> and any
  split of its bytes into chunks (empty chunks and single bytes included), feeding the
  chunks in order to a reassembler with an empty buffer extracts exactly that one packet
  and leaves the buffer empty, as feeding the packet in one call does; the packet decodes
  to the frame that was encoded (its body read back from the bytes written for it, which
  is the body itself whenever the body survives the encoding).
\<close>

theorem chunk_boundary_independence:
  assumes "encodePacket (encoding st) type ident body = Inr frame"
    and "concat chunks = frame"
    and "incomingData st = []"
  shows "feedAll st chunks = Some (Decoded [frame] st)
         \<and> decodeData st frame = Some (Decoded [frame] st)
         \<and> decodePacket (encoding st) frame =
             Inr \<lparr>pkt_size = int (byteLength body) + 10, pkt_id = ident, pkt_type = type,
                  pkt_body = (if roundTrips (encoding st) body then body
                              else decodeBytes (encoding st) (bodyBytes (encoding st) body))\<rparr>"
proof -
  let ?enc = "encoding st"
  let ?payload = "bodyBytes ?enc body"
  have v: "int (length ?payload) + 10 \<le> 2147483647" "isInt32 ident" "isInt32 type"
    and f: "frame = frameBytes type ident ?payload"
    using assms(1) by (auto simp: encodePacket_eq length_bodyBytes split: if_splits)
  have st: "st\<lparr>incomingData := []\<rparr> = st"
    using assms(3) by (cases st) simp
  have "feedAll (st\<lparr>incomingData := take 0 frame\<rparr>) chunks
          = Some (Decoded [frame] (st\<lparr>incomingData := []\<rparr>))"
    unfolding f using assms(2)
    by (intro feedAll_frame [OF v(1)]) (simp_all add: f length_frameBytes)
  then have a: "feedAll st chunks = Some (Decoded [frame] st)"
    by (simp add: st)
  have b: "decodeData st frame = Some (Decoded [frame] st)"
    using decodeLoop_whole_frame [OF v(1), of ?enc type ident "[]"]
    by (simp add: decodeData_def assms(3) f st)
  show ?thesis
    using a b decodePacket_frameBytes [OF v, of ?enc]
    by (simp add: f length_bodyBytes decodeBytes_bodyBytes)
qed

theorem chunk_boundary_independence_witness:
  "encodePacket (encoding (Rcon (js ''pw'') None None)) COMMAND END [0x68, 0xE9]
     = Inr [13, 0, 0, 0, 2, 0, 0, 0, 2, 0, 0, 0, 0x68, 0xC3, 0xA9, 0, 0]
   \<and> incomingData (Rcon (js ''pw'') None None) = []
   \<and> feedAll (Rcon (js ''pw'') None None)
        [[13], [0], [0], [0], [2], [0], [0], [0], [2], [0], [0], [0], [0x68], [0xC3], [0xA9],
         [0], [0]]
       = Some (Decoded [[13, 0, 0, 0, 2, 0, 0, 0, 2, 0, 0, 0, 0x68, 0xC3, 0xA9, 0, 0]]
                (Rcon (js ''pw'') None None))
   \<and> feedAll (Rcon (js ''pw'') None None)
        [[13, 0, 0, 0, 2], [], [0, 0, 0, 2, 0, 0, 0, 0x68, 0xC3], [0xA9, 0, 0]]
       = Some (Decoded [[13, 0, 0, 0, 2, 0, 0, 0, 2, 0, 0, 0, 0x68, 0xC3, 0xA9, 0, 0]]
                (Rcon (js ''pw'') None None))
   \<and> decodeData (Rcon (js ''pw'') None None)
        [13, 0, 0, 0, 2, 0, 0, 0, 2, 0, 0, 0, 0x68, 0xC3, 0xA9, 0, 0]
       = Some (Decoded [[13, 0, 0, 0, 2, 0, 0, 0, 2, 0, 0, 0, 0x68, 0xC3, 0xA9, 0, 0]]
                (Rcon (js ''pw'') None None))
   \<and> decodePacket (encoding (Rcon (js ''pw'') None None))
        [13, 0, 0, 0, 2, 0, 0, 0, 2, 0, 0, 0, 0x68, 0xC3, 0xA9, 0, 0]
       = Inr \<lparr>pkt_size = 13, pkt_id = END, pkt_type = COMMAND, pkt_body = [0x68, 0xE9]\<rparr>"
proof -
  let ?st = "Rcon (js ''pw'') None None"
  let ?F = "[13, 0, 0, 0, 2, 0, 0, 0, 2, 0, 0, 0, 0x68, 0xC3, 0xA9, 0, 0] :: buffer"
  have e: "encodePacket (encoding ?st) COMMAND END [0x68, 0xE9] = Inr ?F"
    by code_simp
  have i: "incomingData ?st = []"
    by (simp add: Rcon_def)
  have c1: "concat [[13], [0], [0], [0], [2], [0], [0], [0], [2], [0], [0], [0], [0x68], [0xC3],
                    [0xA9], [0], [0]] = ?F"
    by simp
  have c2: "concat [[13, 0, 0, 0, 2], [], [0, 0, 0, 2, 0, 0, 0, 0x68, 0xC3], [0xA9, 0, 0]] = ?F"
    by simp
  have r: "roundTrips (encoding ?st) [0x68, 0xE9]"
    by code_simp
  have n: "int (byteLength [0x68, 0xE9]) + 10 = 13"
    by code_simp
  note t1 = chunk_boundary_independence [OF e c1 i]
  note t2 = chunk_boundary_independence [OF e c2 i]
  from t1 have a1: "feedAll ?st [[13], [0], [0], [0], [2], [0], [0], [0], [2], [0], [0], [0],
                                 [0x68], [0xC3], [0xA9], [0], [0]] = Some (Decoded [?F] ?st)"
    by blast
  from t2 have a2: "feedAll ?st [[13, 0, 0, 0, 2], [], [0, 0, 0, 2, 0, 0, 0, 0x68, 0xC3],
                                 [0xA9, 0, 0]] = Some (Decoded [?F] ?st)"
    by blast
  from t1 have a3: "decodeData ?st ?F = Some (Decoded [?F] ?st)"
    by blast
  from t1 have "decodePacket (encoding ?st) ?F =
             Inr \<lparr>pkt_size = int (byteLength [0x68, 0xE9]) + 10, pkt_id = END, pkt_type = COMMAND,
                  pkt_body = (if roundTrips (encoding ?st) [0x68, 0xE9] then [0x68, 0xE9]
                              else decodeBytes (encoding ?st) (bodyBytes (encoding ?st) [0x68, 0xE9]))\<rparr>"
    by blast
  then have a4: "decodePacket (encoding ?st) ?F
       = Inr \<lparr>pkt_size = 13, pkt_id = END, pkt_type = COMMAND, pkt_body = [0x68, 0xE9]\<rparr>"
    by (simp only: r n if_True)
  from e i a1 a2 a3 a4 show ?thesis
    by blast
qed

section \<open>Dispatch\<close>

text \<open>
  C9. The dispatcher is not total: an End-tagged packet of type RESPONSE_VALUE or
  RESPONSE_AUTH that arrives while the queue of completions is empty makes
  \<open>_socketOnData\<close> call \<open>undefined\<close>, a TypeError; the client state is as before the
  packet and the packets behind it are not processed.
\<close>

theorem end_frame_on_empty_queue_throws:
  assumes "decodePacket (encoding st) packet = Inr p"
    and "pkt_type p = RESPONSE_VALUE \<or> pkt_type p = RESPONSE_AUTH"
    and "pkt_id p = END"
    and "responseCallbackQueue st = []"
  shows "processPackets st (packet # packets) = Throw TypeError st"
  using assms by (simp add: handlePacket_def MID_def END_def)

theorem end_frame_on_empty_queue_throws_witness:
  "decodePacket (encoding (Rcon (js ''pw'') None None)) [10, 0, 0, 0, 2, 0, 0, 0, 0, 0, 0, 0, 0, 0]
     = Inr \<lparr>pkt_size = 10, pkt_id = 2, pkt_type = 0, pkt_body = []\<rparr>
   \<and> responseCallbackQueue (Rcon (js ''pw'') None None) = []
   \<and> processPackets (Rcon (js ''pw'') None None) [[10, 0, 0, 0, 2, 0, 0, 0, 0, 0, 0, 0, 0, 0]]
       = Throw TypeError (Rcon (js ''pw'') None None)"
proof -
  let ?p = "\<lparr>pkt_size = 10, pkt_id = 2, pkt_type = 0, pkt_body = []\<rparr>"
  have d: "decodePacket (encoding (Rcon (js ''pw'') None None))
             [10, 0, 0, 0, 2, 0, 0, 0, 0, 0, 0, 0, 0, 0] = Inr ?p"
    by code_simp
  have t: "pkt_type ?p = RESPONSE_VALUE \<or> pkt_type ?p = RESPONSE_AUTH"
    by (simp add: RESPONSE_VALUE_def)
  have i: "pkt_id ?p = END"
    by (simp add: END_def)
  have q: "responseCallbackQueue (Rcon (js ''pw'') None None) = []"
    by (simp add: Rcon_def)
  show ?thesis
    using end_frame_on_empty_queue_throws [OF d t i q, of "[]"] d q by simp
qed

text \<open>
  C2. Three Mid-tagged response packets with the bodies \<open>foo\<close>, \<open>bar\<close>, \<open>baz\<close> and an
  End-tagged packet, received for a pending command: the completion is invoked with
  \<open>foo,bar,baz\<close>, since \<open>join()\<close> separates by commas, and not with \<open>foobarbaz\<close>.
\<close>

theorem multi_fragment_join_commas:
  "run (Rcon (js ''pw'') None None)
     [SocketConnect,
      SocketData [10, 0, 0, 0, 2, 0, 0, 0, 0, 0, 0, 0, 0, 0,
                  10, 0, 0, 0, 2, 0, 0, 0, 2, 0, 0, 0, 0, 0],
      Execute (js ''ListPlayers''),
      SocketData [13, 0, 0, 0, 1, 0, 0, 0, 0, 0, 0, 0, 102, 111, 111, 0, 0,
                  13, 0, 0, 0, 1, 0, 0, 0, 0, 0, 0, 0, 98, 97, 114, 0, 0,
                  13, 0, 0, 0, 1, 0, 0, 0, 0, 0, 0, 0, 98, 97, 122, 0, 0,
                  10, 0, 0, 0, 2, 0, 0, 0, 0, 0, 0, 0, 0, 0]]
     = Some (Return
        \<lparr>maximumPacketSize = 4096, encoding = Utf8, password = js ''pw'', incomingData = [],
         incomingResponse = [], responseCallbackQueue = [], connected = True,
         autoReconnect = True, writable = True,
         socketWrites =
           [[12, 0, 0, 0, 2, 0, 0, 0, 3, 0, 0, 0, 112, 119, 0, 0],
            [21, 0, 0, 0, 1, 0, 0, 0, 2, 0, 0, 0, 76, 105, 115, 116, 80, 108, 97, 121, 101,
             114, 115, 0, 0],
            [10, 0, 0, 0, 2, 0, 0, 0, 2, 0, 0, 0, 0, 0]],
         errorListeners = [], nextListener = 2,
         emitted = [Connect, Authed, Response (JsString (js ''foo,bar,baz''))],
         reconnectTimers = 0, connectCalls = 0\<rparr>)"
  by code_simp

section \<open>Writing and the handshake\<close>


text \<open>
  C7. A request whose encoded packet is longer than the maximum packet size is rejected:
  \<open>_write\<close> returns with one \<open>error\<close> event emitted and nothing else changed, so
  nothing is written to the socket and the queue of completions is as it was.
\<close>

theorem oversize_rejected:
  assumes "encodePacket (encoding st) type (if type \<noteq> AUTH then MID else END) body = Inr packet"
    and "maximumPacketSize st < int (length packet)"
  shows "rcon_write st type body =
           Return (st\<lparr>emitted := emitted st
              @ [Error (if \<not> connected st then NotConnected
                        else if \<not> writable st then UnableToWrite
                        else PacketTooLong)]\<rparr>)"
proof -
  have "isInt32 type"
    using assms(1) by (simp add: encodePacket_eq split: if_splits)
  then have e: "encodePacket (encoding st) type END [] = Inr (frameBytes type END [])"
    by (rule encodePacket_empty_END)
  show ?thesis
    using assms by (simp add: rcon_write_def emit_def e)
qed

theorem oversize_rejected_witness:
  "encodePacket (encoding ((Rcon (js ''pw'') None None)\<lparr>connected := True, writable := True\<rparr>))
     COMMAND (if COMMAND \<noteq> AUTH then MID else END) (replicate 4086 0x61)
     = Inr (frameBytes COMMAND MID (bodyBytes Utf8 (replicate 4086 0x61)))
   \<and> length (frameBytes COMMAND MID (bodyBytes Utf8 (replicate 4086 0x61))) = 4100
   \<and> maximumPacketSize ((Rcon (js ''pw'') None None)\<lparr>connected := True, writable := True\<rparr>) < 4100
   \<and> execute ((Rcon (js ''pw'') None None)\<lparr>connected := True, writable := True\<rparr>)
        (replicate 4086 0x61)
       = Return ((Rcon (js ''pw'') None None)\<lparr>connected := True, writable := True,
                   emitted := [Error PacketTooLong]\<rparr>)"
proof -
  define st where "st = (Rcon (js ''pw'') None None)\<lparr>connected := True, writable := True\<rparr>"
  define body where "body = (replicate 4086 0x61 :: js_string)"
  define F where "F = frameBytes COMMAND MID (bodyBytes Utf8 body)"
  have k: "encoding st = Utf8" "maximumPacketSize st = 4096" "connected st" "writable st"
    "emitted st = []"
    by (simp_all add: st_def Rcon_def)
  have bl: "byteLength body = 4086"
    unfolding body_def by (rule byteLength_replicate_a)
  have e: "encodePacket (encoding st) COMMAND (if COMMAND \<noteq> AUTH then MID else END) body = Inr F"
    by (simp add: k encodePacket_eq isInt32_def COMMAND_def AUTH_def MID_def bl F_def)
  have l: "length F = 4100"
    by (simp add: F_def length_frameBytes length_bodyBytes bl)
  have m: "maximumPacketSize st < int (length F)"
    by (simp add: l k)
  have m': "maximumPacketSize st < 4100"
    by (simp add: k)
  have "rcon_write st COMMAND body =
           Return (st\<lparr>emitted := emitted st
              @ [Error (if \<not> connected st then NotConnected
                        else if \<not> writable st then UnableToWrite
                        else PacketTooLong)]\<rparr>)"
    by (rule oversize_rejected [OF e m])
  then have "rcon_write st COMMAND body = Return (st\<lparr>emitted := [Error PacketTooLong]\<rparr>)"
    by (simp add: k)
  then have x: "execute st body = Return (st\<lparr>emitted := [Error PacketTooLong]\<rparr>)"
    by (simp add: execute_def)
  have y: "st\<lparr>emitted := [Error PacketTooLong]\<rparr>
             = (Rcon (js ''pw'') None None)\<lparr>connected := True, writable := True,
                   emitted := [Error PacketTooLong]\<rparr>"
    by (simp add: st_def)
  from e l m' x have "encodePacket (encoding st) COMMAND (if COMMAND \<noteq> AUTH then MID else END) body
     = Inr F \<and> length F = 4100 \<and> maximumPacketSize st < 4100
     \<and> execute st body = Return (st\<lparr>emitted := [Error PacketTooLong]\<rparr>)"
    by (intro conjI)
  then show ?thesis
    unfolding y unfolding st_def body_def F_def .
qed

text \<open>
  C1. A rejected password goes unreported. After the connect, the echo of the handshake
  and an auth response with id \<open>-1\<close>, no \<open>error\<close> has been emitted and the completion of
  the handshake is still queued; a following \<open>execute\<close> is not rejected but written to
  the socket and queued behind it; and the End-tagged packet of the next response invokes
  the completion of the handshake with the joined string, whose \<open>id\<close> is undefined, so
  that \<open>authed\<close> is emitted and the auto-reconnect flag is set. The comparison with
  \<open>-1\<close> in the completion never sees the id of a packet.
\<close>

theorem auth_failure_not_reported:
  "run (Rcon (js ''pw'') None None)
     [SocketConnect,
      SocketData [10, 0, 0, 0, 2, 0, 0, 0, 0, 0, 0, 0, 0, 0,
                  10, 0, 0, 0, 255, 255, 255, 255, 2, 0, 0, 0, 0, 0]]
     = Some (Return rejectedClient)
   \<and> decodePacket (encoding (Rcon (js ''pw'') None None))
        [10, 0, 0, 0, 255, 255, 255, 255, 2, 0, 0, 0, 0, 0]
       = Inr \<lparr>pkt_size = 10, pkt_id = - 1, pkt_type = RESPONSE_AUTH, pkt_body = []\<rparr>
   \<and> emitted rejectedClient = [Connect]
   \<and> autoReconnect rejectedClient = False
   \<and> execute rejectedClient (js ''ListPlayers'')
     = Return (rejectedClient
         \<lparr>responseCallbackQueue := [AuthCallback 0, ResponseCallback 1],
          socketWrites := socketWrites rejectedClient
            @ [[21, 0, 0, 0, 1, 0, 0, 0, 2, 0, 0, 0, 76, 105, 115, 116, 80, 108, 97, 121, 101,
                114, 115, 0, 0],
               [10, 0, 0, 0, 2, 0, 0, 0, 2, 0, 0, 0, 0, 0]],
          errorListeners := [0, 1], nextListener := 2\<rparr>)
   \<and> run rejectedClient
        [Execute (js ''ListPlayers''),
         SocketData [10, 0, 0, 0, 2, 0, 0, 0, 0, 0, 0, 0, 0, 0]]
     = Some (Return (rejectedClient
         \<lparr>responseCallbackQueue := [ResponseCallback 1],
          autoReconnect := True,
          socketWrites := socketWrites rejectedClient
            @ [[21, 0, 0, 0, 1, 0, 0, 0, 2, 0, 0, 0, 76, 105, 115, 116, 80, 108, 97, 121, 101,
                114, 115, 0, 0],
               [10, 0, 0, 0, 2, 0, 0, 0, 2, 0, 0, 0, 0, 0]],
          errorListeners := [1], nextListener := 2,
          emitted := [Connect, Authed]\<rparr>))"
  by code_simp

section \<open>Reconnecting\<close>







end
